theory Spec2Isabelle
  imports Main "HOL-Library.Char_ord" "HOL-Library.List_Lexorder"
begin

section \<open>Data of main.cxx\<close>

text \<open>
  \<^verbatim>\<open>struct Word { std::string data; Word(char* data_) : data(data_) {}  Word() {} };\<close>
  \<^verbatim>\<open>struct wordCount { int count; wordCount() : count(0) {} };\<close>
  A \<open>std::string\<close> is a \<open>string\<close> (a list of bytes); with \<open>Char_ord\<close> and
  \<open>List_Lexorder\<close> the order \<open><\<close> on strings is the bytewise lexicographic order
  that \<open>std::less\<close> on \<open>std::string\<close> uses.

  A \<open>char\<close> buffer is the list of the bytes written to it, its terminating zero byte
  left out. Read as a C string it ends at its first zero byte: \<open>scanf\<close> stores a zero
  byte of the input like any other byte that is not white space, so the C string in
  \<open>lineBuf\<close> can be shorter than the token. \<open>c_string\<close> is that C string. The constructor
  \<open>Word(char*)\<close> initialises \<open>data\<close> from the C string.
\<close>

record Word =
  data :: string

record wordCount =
  count :: int

definition Word_default :: Word where
  "Word_default = \<lparr>data = []\<rparr>"

definition c_string :: "string \<Rightarrow> string" where
  "c_string buf = takeWhile (\<lambda>c. c \<noteq> CHR 0x00) buf"

definition Word_of :: "string \<Rightarrow> Word" where
  "Word_of data_buf = \<lparr>data = c_string data_buf\<rparr>"

definition wordCount_default :: wordCount where
  "wordCount_default = \<lparr>count = 0\<rparr>"

text \<open>
  \<open>int\<close> is a 32-bit signed integer. \<open>int32\<close> is the two's-complement value that an
  arithmetic result is stored as; it is the identity on \<open>-2^31 .. 2^31 - 1\<close>. Signed
  overflow is undefined in C++: the wrap-around is what the usual targets compute, and
  the theorems about the size of a count assume that none overflows.
\<close>

definition int32 :: "int \<Rightarrow> int" where
  "int32 x = (x + 2147483648) mod 4294967296 - 2147483648"

text \<open>
  \<open>std::strcmp\<close> on two buffers: negative, zero or positive as the first C string is
  below, equal to or above the second, bytes compared as unsigned. The comparison stops
  at the first zero byte; the end of the list is the buffer's terminating zero byte.
\<close>

fun strcmp :: "string \<Rightarrow> string \<Rightarrow> int" where
  "strcmp [] [] = 0"
| "strcmp [] (y # ys) = (if y = CHR 0x00 then 0 else - 1)"
| "strcmp (x # xs) [] = (if x = CHR 0x00 then 0 else 1)"
| "strcmp (x # xs) (y # ys) =
     (if x = y then (if x = CHR 0x00 then 0 else strcmp xs ys)
      else if x < y then - 1 else 1)"

subsection \<open>The word list \<open>s_wordsMap\<close>, a \<open>std::map\<close> from \<open>std::string\<close> to \<open>wordCount\<close>\<close>

text \<open>
  The map is the sequence of its nodes in iteration order, that is in ascending key order.
  \<open>map_find\<close> is \<open>std::map::find\<close> (\<open>None\<close> is \<open>end()\<close>), \<open>map_subscript\<close> is the
  insertion that \<open>operator[]\<close> performs when the key is absent (a value-initialised
  \<open>wordCount\<close> at the key's place in the order), and \<open>map_modify\<close> writes through the
  reference that \<open>operator[]\<close> returns.
\<close>

type_synonym wordsMap = "(string \<times> wordCount) list"

fun map_find :: "string \<Rightarrow> wordsMap \<Rightarrow> (string \<times> wordCount) option" where
  "map_find k [] = None"
| "map_find k ((k', v) # m) = (if k = k' then Some (k', v) else map_find k m)"

fun map_subscript :: "string \<Rightarrow> wordsMap \<Rightarrow> wordsMap" where
  "map_subscript k [] = [(k, wordCount_default)]"
| "map_subscript k ((k', v) # m) =
     (if k = k' then (k', v) # m
      else if k < k' then (k, wordCount_default) # (k', v) # m
      else (k', v) # map_subscript k m)"

fun map_modify :: "string \<Rightarrow> (wordCount \<Rightarrow> wordCount) \<Rightarrow> wordsMap \<Rightarrow> wordsMap" where
  "map_modify k f [] = []"
| "map_modify k f ((k', v) # m) =
     (if k = k' then (k', f v) # m else (k', v) # map_modify k f m)"

text \<open>Lines 61-62: \<^verbatim>\<open>auto& got = s_wordsMap[w.data]; got.count += 1;\<close>\<close>

definition count_word :: "string \<Rightarrow> wordsMap \<Rightarrow> wordsMap" where
  "count_word k m =
     map_modify k (\<lambda>got. got\<lparr>count := int32 (count got + 1)\<rparr>) (map_subscript k m)"

text \<open>
  Lines 54-64, the body of the worker's loop after the swap: the new value of
  \<open>endEncountered\<close> and the word list.
\<close>

definition worker_body :: "Word \<Rightarrow> wordsMap \<Rightarrow> bool \<times> wordsMap" where
  "worker_body w m =
     (if data w \<noteq> [] then
        (let endEncountered = (strcmp (data w) ''end'' = 0) in
         if \<not> endEncountered then (endEncountered, count_word (data w) m)
         else (endEncountered, m))
      else (False, m))"

subsection \<open>Standard input and output\<close>

text \<open>
  Standard input is the sequence of whitespace-delimited tokens still unread, each the
  list of its bytes (a zero byte is not white space and can be one of them).
  \<^verbatim>\<open>std::scanf("%s", lineBuf)\<close> with \<^verbatim>\<open>char lineBuf[32]\<close> returns \<open>EOF\<close> when no token is
  left; otherwise it writes the token and a terminating zero byte into the buffer,
  whatever the token's length: \<open>Stored t\<close> when these bytes fit the buffer,
  \<open>Overrun n\<close> when \<open>n\<close> bytes, more than the buffer holds, were written (undefined
  behaviour).
\<close>

datatype scanned = EOF | Stored string | Overrun nat

definition lineBuf_size :: nat where
  "lineBuf_size = 32"

fun scanf :: "string list \<Rightarrow> scanned \<times> string list" where
  "scanf [] = (EOF, [])"
| "scanf (t # ts) =
     (if length t + 1 \<le> lineBuf_size then Stored t else Overrun (length t + 1), ts)"

text \<open>What the program prints, one constructor for each \<open>printf\<close> of the source.\<close>

datatype printed =
    Header
  | Listing string int
  | Prompt
  | Success string int
  | NotFound string
  | Total int

section \<open>The two threads\<close>

text \<open>
  The state is the program's statics (\<open>s_wordsMap\<close>, \<open>s_word\<close>, \<open>s_totalFound\<close>), the
  standard streams, and the locals and program points of the main thread (inside
  \<open>read_input_words\<close>) and of the worker thread. \<open>put_log\<close> and \<open>take_log\<close> are history
  variables. \<open>put_log\<close> lists the tokens that the main thread has passed to \<open>s_word\<close> at
  line 91, as they stood in \<open>lineBuf\<close>. \<open>take_log\<close> lists the words that the worker has
  observed: the values of its local \<open>w\<close> that passed the test \<open>!w.data.empty()\<close> of line
  54, in order. The program never reads them.

  Program points of the main thread: \<open>P_Spawn\<close> line 77; \<open>P_Scanf\<close> lines 78-85;
  \<open>P_Put\<close> lines 88-93; \<open>P_Wait\<close> lines 96-102 and the loop test; \<open>P_Join\<close> line 105;
  \<open>P_Return\<close> after line 106; \<open>P_Terminate\<close> after the \<open>return\<close> of line 82, which
  destroys the joinable \<open>std::thread worker\<close> and so calls \<open>std::terminate\<close>;
  \<open>P_Overrun\<close> after a \<open>scanf\<close> that wrote past the end of \<open>lineBuf\<close>.
  Program points of the worker: \<open>C_Idle\<close> not started; \<open>C_Swap\<close> lines 42-52;
  \<open>C_Process\<close> lines 54-64 and the loop test; \<open>C_Exit\<close> returned.
\<close>

datatype main_pc =
  P_Spawn | P_Scanf | P_Put | P_Wait | P_Join | P_Return | P_Terminate | P_Overrun

datatype worker_pc = C_Idle | C_Swap | C_Process | C_Exit

record state =
  stdin :: "string list"
  stdout :: "printed list"
  s_wordsMap :: wordsMap
  s_word :: Word
  s_totalFound :: int
  ppc :: main_pc
  p_lineBuf :: string
  p_endEncountered :: bool
  cpc :: worker_pc
  c_w :: Word
  put_log :: "string list"
  take_log :: "string list"

definition init :: "string list \<Rightarrow> state" where
  "init inp =
     \<lparr>stdin = inp, stdout = [], s_wordsMap = [], s_word = Word_default, s_totalFound = 0,
      ppc = P_Spawn, p_lineBuf = [], p_endEncountered = False,
      cpc = C_Idle, c_w = Word_default, put_log = [], take_log = []\<rparr>"

text \<open>
  One atomic action of \<open>read_input_words\<close>. Every access to \<open>s_word\<close> is made under
  \<open>s_mutex\<close>, and \<open>s_wordsMap\<close> is touched by the worker alone until it is joined, so a
  run of the two threads is an interleaving of their blocks. Each block under \<open>s_mutex\<close>
  is one action; the reading of a token, which touches no shared variable, is another;
  \<open>s_conditionVariable.wait(ulock, pred)\<close> returns only in a state where \<open>pred\<close> holds,
  and \<open>worker.join()\<close> only once the worker has returned: in any other state the thread
  is blocked (\<open>None\<close>).
\<close>

definition read_input_words_step :: "state \<Rightarrow> state option" where
  "read_input_words_step s =
     (case ppc s of
        P_Spawn \<Rightarrow> Some (s\<lparr>ppc := P_Scanf, cpc := C_Swap\<rparr>)
      | P_Scanf \<Rightarrow>
          (case scanf (stdin s) of
             (EOF, rest) \<Rightarrow> Some (s\<lparr>stdin := rest, ppc := P_Terminate\<rparr>)
           | (Overrun n, rest) \<Rightarrow> Some (s\<lparr>stdin := rest, ppc := P_Overrun\<rparr>)
           | (Stored t, rest) \<Rightarrow>
               Some (s\<lparr>stdin := rest, p_lineBuf := t,
                       p_endEncountered := (strcmp t ''end'' = 0), ppc := P_Put\<rparr>))
      | P_Put \<Rightarrow>
          Some (s\<lparr>s_word := Word_of (p_lineBuf s),
                  put_log := put_log s @ [p_lineBuf s], ppc := P_Wait\<rparr>)
      | P_Wait \<Rightarrow>
          (if data (s_word s) = []
           then Some (s\<lparr>ppc := (if p_endEncountered s then P_Join else P_Scanf)\<rparr>)
           else None)
      | P_Join \<Rightarrow> (if cpc s = C_Exit then Some (s\<lparr>ppc := P_Return\<rparr>) else None)
      | P_Return \<Rightarrow> None
      | P_Terminate \<Rightarrow> None
      | P_Overrun \<Rightarrow> None)"

text \<open>
  One atomic action of \<open>worker_thread\<close>: the swap under the mutex (lines 44-52, with a
  fresh empty \<open>w\<close>), or the processing of \<open>w\<close> followed by the loop test.
\<close>

definition worker_thread_step :: "state \<Rightarrow> state option" where
  "worker_thread_step s =
     (case cpc s of
        C_Idle \<Rightarrow> None
      | C_Swap \<Rightarrow> Some (s\<lparr>c_w := s_word s, s_word := Word_default, cpc := C_Process\<rparr>)
      | C_Process \<Rightarrow>
          (case worker_body (c_w s) (s_wordsMap s) of
             (endEncountered, m) \<Rightarrow>
               Some (s\<lparr>s_wordsMap := m,
                       take_log :=
                         take_log s @ (if data (c_w s) \<noteq> [] then [data (c_w s)] else []),
                       cpc := (if endEncountered then C_Exit else C_Swap)\<rparr>))
      | C_Exit \<Rightarrow> None)"

text \<open>
  The process runs no thread once \<open>std::terminate\<close> was called or the buffer was
  overrun. A schedule is the order in which the threads perform their actions; \<open>run\<close>
  is \<open>None\<close> when the schedule asks a blocked thread to move.
\<close>

datatype thread = Main_thread | Worker

definition halted :: "state \<Rightarrow> bool" where
  "halted s = (ppc s = P_Terminate \<or> ppc s = P_Overrun)"

definition step :: "thread \<Rightarrow> state \<Rightarrow> state option" where
  "step t s =
     (if halted s then None
      else case t of Main_thread \<Rightarrow> read_input_words_step s | Worker \<Rightarrow> worker_thread_step s)"

fun run :: "thread list \<Rightarrow> state \<Rightarrow> state option" where
  "run [] s = Some s"
| "run (t # ts) s = (case step t s of None \<Rightarrow> None | Some s' \<Rightarrow> run ts s')"

section \<open>After ingestion\<close>

text \<open>Lines 157-161 of \<open>main\<close>: the listing of the word list.\<close>

definition word_list :: "wordsMap \<Rightarrow> (string \<times> int) list" where
  "word_list m = map (\<lambda>(k, v). (k, count v)) m"

definition print_word_list :: "state \<Rightarrow> state" where
  "print_word_list s =
     s\<lparr>stdout := stdout s @ Header # map (\<lambda>(k, n). Listing k n) (word_list (s_wordsMap s))\<rparr>"

text \<open>Lines 125-145 of \<open>lookup_words\<close>: one query, already read into \<open>lineBuf\<close>.\<close>

definition lookup_body :: "string \<Rightarrow> state \<Rightarrow> state" where
  "lookup_body lineBuf s =
     (let w = Word_of lineBuf in
      case map_find (data w) (s_wordsMap s) of
        Some (first, second) \<Rightarrow>
          s\<lparr>stdout := stdout s @ [Success first (count second)],
            s_totalFound := int32 (s_totalFound s + 1)\<rparr>
      | None \<Rightarrow> s\<lparr>stdout := stdout s @ [NotFound (data w)]\<rparr>)"

text \<open>
  \<open>lookup_words\<close>, lines 111-147: the loop \<^verbatim>\<open>for(;;)\<close> leaves only by the \<open>return\<close> at
  \<open>EOF\<close>. Every iteration reads one token, so the recursion is on the unread input.
\<close>

function lookup_words :: "state \<Rightarrow> state" where
  "lookup_words s =
     (case scanf (stdin s) of
        (EOF, rest) \<Rightarrow> s\<lparr>stdin := rest, stdout := stdout s @ [Prompt]\<rparr>
      | (Overrun n, rest) \<Rightarrow> s\<lparr>stdin := rest, stdout := stdout s @ [Prompt], ppc := P_Overrun\<rparr>
      | (Stored t, rest) \<Rightarrow>
          lookup_words (lookup_body t (s\<lparr>stdin := rest, stdout := stdout s @ [Prompt]\<rparr>)))"
  by pat_completeness auto
termination
proof (relation "measure (\<lambda>s. length (stdin s))")
  show "wf (measure (\<lambda>s. length (stdin s)))"
    by simp
next
  fix s :: state and x rest t
  assume "(x, rest) = scanf (stdin s)" and "x = Stored t"
  then have "length rest < length (stdin s)"
    by (cases "stdin s") (auto split: if_splits)
  moreover have "stdin (lookup_body t (s\<lparr>stdin := rest, stdout := stdout s @ [Prompt]\<rparr>)) = rest"
    by (simp add: lookup_body_def Let_def split: option.split)
  ultimately show "(lookup_body t (s\<lparr>stdin := rest, stdout := stdout s @ [Prompt]\<rparr>), s)
      \<in> measure (\<lambda>s. length (stdin s))"
    by simp
qed

text \<open>Lines 163-165 of \<open>main\<close>.\<close>

definition print_total :: "state \<Rightarrow> state" where
  "print_total s = s\<lparr>stdout := stdout s @ [Total (s_totalFound s)]\<rparr>"

text \<open>
  \<open>main\<close> after \<open>read_input_words\<close> has returned: the listing, the lookup session, the
  total.
\<close>

definition main_after_ingestion :: "state \<Rightarrow> state" where
  "main_after_ingestion s =
     (let s1 = print_word_list s; s2 = lookup_words s1 in
      if ppc s2 = P_Overrun then s2 else print_total s2)"

text \<open>
  \<open>main\<close>, lines 149-173, when the two threads run \<open>read_input_words\<close> and
  \<open>worker_thread\<close> in the order \<open>sched\<close>: \<open>None\<close> when that schedule does not bring
  \<open>read_input_words\<close> to its return. No exception is thrown in this model, so the handler
  of lines 167-170 is never entered.
\<close>

definition main :: "thread list \<Rightarrow> string list \<Rightarrow> state option" where
  "main sched inp =
     (case run sched (init inp) of
        None \<Rightarrow> None
      | Some s \<Rightarrow> if ppc s = P_Return then Some (main_after_ingestion s) else None)"

section \<open>Invariants of the hand-off\<close>

text \<open>
  \<open>slot s\<close> is the content of the single slot \<open>s_word\<close>: no word when its \<open>data\<close> is
  empty, one word otherwise. \<open>in_flight s\<close> lists the words that the main thread has
  handed over and that the worker has not yet observed: the word in the worker's \<open>w\<close>
  after the swap and before the test of line 54, then the word in the slot.
  \<open>tally ws\<close> is the word list after the worker has counted the words \<open>ws\<close> in this order
  (lines 61-62 for each).
\<close>

definition slot :: "state \<Rightarrow> string list" where
  "slot s = (if data (s_word s) = [] then [] else [data (s_word s)])"

definition in_flight :: "state \<Rightarrow> string list" where
  "in_flight s =
     (if cpc s = C_Process \<and> data (c_w s) \<noteq> [] then [data (c_w s)] else []) @ slot s"

definition tally :: "string list \<Rightarrow> wordsMap" where
  "tally ws = foldl (\<lambda>m t. count_word t m) [] ws"

text \<open>
  The words that a list of tokens hands to the worker: their C strings, the empty ones
  left out (a \<open>Word\<close> with empty \<open>data\<close> is the free slot).
\<close>

definition words_of :: "string list \<Rightarrow> string list" where
  "words_of ts = filter (\<lambda>w. w \<noteq> []) (map c_string ts)"

definition is_sentinel :: "string \<Rightarrow> bool" where
  "is_sentinel t = (c_string t = ''end'')"

text \<open>
  What holds at each program point of the main thread, for the input \<open>inp\<close> the program
  was started on: the tokens stored so far, then the token in \<open>lineBuf\<close> when it is still
  to be stored, then the unread input make up \<open>inp\<close>; no token stored before the last one
  is taken for the sentinel; and the slot is empty whenever the main thread is not waiting
  for the worker.
\<close>

definition main_inv :: "string list \<Rightarrow> state \<Rightarrow> bool" where
  "main_inv inp s =
     (case ppc s of
        P_Spawn \<Rightarrow>
          stdin s = inp \<and> put_log s = [] \<and> data (s_word s) = [] \<and> cpc s = C_Idle
      | P_Scanf \<Rightarrow>
          put_log s @ stdin s = inp \<and> \<not> list_ex is_sentinel (put_log s) \<and>
          data (s_word s) = []
      | P_Put \<Rightarrow>
          put_log s @ p_lineBuf s # stdin s = inp \<and> \<not> list_ex is_sentinel (put_log s) \<and>
          data (s_word s) = [] \<and> p_endEncountered s = is_sentinel (p_lineBuf s)
      | P_Wait \<Rightarrow>
          put_log s \<noteq> [] \<and> put_log s @ stdin s = inp \<and>
          \<not> list_ex is_sentinel (butlast (put_log s)) \<and> p_lineBuf s = last (put_log s) \<and>
          p_endEncountered s = is_sentinel (p_lineBuf s)
      | P_Join \<Rightarrow>
          put_log s \<noteq> [] \<and> put_log s @ stdin s = inp \<and>
          \<not> list_ex is_sentinel (butlast (put_log s)) \<and> p_lineBuf s = last (put_log s) \<and>
          is_sentinel (p_lineBuf s) \<and> p_endEncountered s \<and> data (s_word s) = []
      | P_Return \<Rightarrow>
          put_log s \<noteq> [] \<and> put_log s @ stdin s = inp \<and>
          \<not> list_ex is_sentinel (butlast (put_log s)) \<and> p_lineBuf s = last (put_log s) \<and>
          is_sentinel (p_lineBuf s) \<and> p_endEncountered s \<and> data (s_word s) = [] \<and>
          cpc s = C_Exit
      | P_Terminate \<Rightarrow>
          put_log s = inp \<and> stdin s = [] \<and> \<not> list_ex is_sentinel inp \<and>
          data (s_word s) = []
      | P_Overrun \<Rightarrow>
          take (length (put_log s)) inp = put_log s \<and> data (s_word s) = [])"

text \<open>
  What holds at each program point of the worker: the word list is the tally of the words
  it has observed, the sentinel left out, and the sentinel is the last word it observes.
  The words in \<open>s_word\<close> and in \<open>w\<close> hold no zero byte.
\<close>

definition worker_inv :: "state \<Rightarrow> bool" where
  "worker_inv s =
     (c_string (data (s_word s)) = data (s_word s) \<and>
      c_string (data (c_w s)) = data (c_w s) \<and>
      (case cpc s of
         C_Idle \<Rightarrow> take_log s = [] \<and> s_wordsMap s = []
       | C_Swap \<Rightarrow> ''end'' \<notin> set (take_log s) \<and> s_wordsMap s = tally (take_log s)
       | C_Process \<Rightarrow> ''end'' \<notin> set (take_log s) \<and> s_wordsMap s = tally (take_log s)
       | C_Exit \<Rightarrow>
           take_log s \<noteq> [] \<and> last (take_log s) = ''end'' \<and> data (c_w s) = ''end'' \<and>
           ''end'' \<notin> set (butlast (take_log s)) \<and>
           s_wordsMap s = tally (butlast (take_log s))))"

text \<open>
  The hand-off: the words observed, followed by the words in flight, are the words of the
  tokens stored. The lookup phase has not started.
\<close>

definition handoff_inv :: "state \<Rightarrow> bool" where
  "handoff_inv s =
     (take_log s @ in_flight s = words_of (put_log s) \<and> stdout s = [] \<and> s_totalFound s = 0)"

definition ingestion_inv :: "string list \<Rightarrow> state \<Rightarrow> bool" where
  "ingestion_inv inp s = (main_inv inp s \<and> worker_inv s \<and> handoff_inv s)"

text \<open>
  The state in which \<open>read_input_words\<close> returns on the input \<open>inp\<close>: the words of the
  tokens before the first one taken for the sentinel are counted, the input after it is
  unread.
\<close>

definition returned :: "string list \<Rightarrow> state" where
  "returned inp =
     \<lparr>stdin = tl (dropWhile (\<lambda>t. \<not> is_sentinel t) inp), stdout = [],
      s_wordsMap = tally (words_of (takeWhile (\<lambda>t. \<not> is_sentinel t) inp)),
      s_word = Word_default, s_totalFound = 0,
      ppc = P_Return, p_lineBuf = hd (dropWhile (\<lambda>t. \<not> is_sentinel t) inp),
      p_endEncountered = True,
      cpc = C_Exit, c_w = Word_of ''end'',
      put_log = takeWhile (\<lambda>t. \<not> is_sentinel t) inp @
        [hd (dropWhile (\<lambda>t. \<not> is_sentinel t) inp)],
      take_log = words_of (takeWhile (\<lambda>t. \<not> is_sentinel t) inp) @ [''end'']\<rparr>"

text \<open>
  What is required of the word list: every key is a non-empty word other than the sentinel
  (\<open>keys_ok\<close>), and every count is at least one.
\<close>

definition keys_ok :: "wordsMap \<Rightarrow> bool" where
  "keys_ok m = (\<forall>(k, v) \<in> set m. k \<noteq> [] \<and> k \<noteq> ''end'')"

definition table_ok :: "wordsMap \<Rightarrow> bool" where
  "table_ok m = (\<forall>(k, v) \<in> set m. k \<noteq> [] \<and> k \<noteq> ''end'' \<and> 1 \<le> count v)"

section \<open>Arithmetic and the word list\<close>

lemma int32_id: "- 2147483648 \<le> x \<Longrightarrow> x < 2147483648 \<Longrightarrow> int32 x = x"
  by (simp add: int32_def)

lemma int32_succ: "int32 (int32 a + 1) = int32 (a + 1)"
  by (simp add: int32_def mod_simps algebra_simps)

lemma map_modify_keys: "map fst (map_modify k f m) = map fst m"
  by (induction m) auto

lemma map_subscript_keys: "fst ` set (map_subscript k m) = insert k (fst ` set m)"
proof (induction m)
  case Nil
  then show ?case by simp
next
  case (Cons e m)
  obtain k' v where e: "e = (k', v)" by (cases e)
  have "fst ` set (map_subscript k (e # m)) =
      (if k = k' then insert k' (fst ` set m)
       else if k < k' then insert k (insert k' (fst ` set m))
       else insert k' (fst ` set (map_subscript k m)))"
    by (simp add: e)
  with Cons.IH show ?case
    by (auto simp: e)
qed

lemma map_subscript_sorted:
  "sorted_wrt (<) (map fst m) \<Longrightarrow> sorted_wrt (<) (map fst (map_subscript k m))"
proof (induction m)
  case Nil
  then show ?case by simp
next
  case (Cons e m)
  obtain k' v where e: "e = (k', v)" by (cases e)
  show ?case
  proof (cases "k = k' \<or> k < k'")
    case True
    with Cons.prems e show ?thesis
      by auto
  next
    case False
    then have "k' < k"
      by auto
    moreover have "\<forall>x \<in> fst ` set m. k' < x"
      using Cons.prems e by simp
    ultimately have "\<forall>x \<in> fst ` set (map_subscript k m). k' < x"
      unfolding map_subscript_keys by blast
    with Cons False e show ?thesis
      by simp
  qed
qed

lemma map_find_None: "map_find k m = None \<longleftrightarrow> k \<notin> fst ` set m"
proof (induction m)
  case Nil
  then show ?case by simp
next
  case (Cons e m)
  then show ?case
    by (cases e) simp
qed

lemma map_find_subscript:
  "sorted_wrt (<) (map fst m) \<Longrightarrow>
   map_find k (map_subscript t m) =
     (if k = t then (case map_find t m of None \<Rightarrow> Some (t, wordCount_default) | Some e \<Rightarrow> Some e)
      else map_find k m)"
proof (induction m)
  case Nil
  then show ?case by simp
next
  case (Cons e m)
  obtain k' v where e: "e = (k', v)" by (cases e)
  have "t < k' \<Longrightarrow> map_find t m = None"
    using Cons.prems e by (auto simp: map_find_None)
  with Cons e show ?case
    by (auto split: option.splits)
qed

lemma map_find_modify:
  "map_find k (map_modify t f m) =
     (if k = t then (case map_find t m of None \<Rightarrow> None | Some (k', v) \<Rightarrow> Some (k', f v))
      else map_find k m)"
  by (induction m) auto

lemma count_word_sorted:
  "sorted_wrt (<) (map fst m) \<Longrightarrow> sorted_wrt (<) (map fst (count_word k m))"
  by (simp add: count_word_def map_modify_keys map_subscript_sorted)

lemma count_word_keys: "fst ` set (count_word k m) = insert k (fst ` set m)"
  using map_modify_keys [of k "\<lambda>got. got\<lparr>count := int32 (count got + 1)\<rparr>" "map_subscript k m"]
    map_subscript_keys [of k m]
  by (simp add: count_word_def flip: set_map)

lemma map_find_count_word:
  "sorted_wrt (<) (map fst m) \<Longrightarrow>
   map_find k (count_word t m) =
     (if k = t then
        (case map_find t m of
           None \<Rightarrow> Some (t, \<lparr>count = int32 1\<rparr>)
         | Some (k', v) \<Rightarrow> Some (k', v\<lparr>count := int32 (count v + 1)\<rparr>))
      else map_find k m)"
  by (auto simp: count_word_def map_find_modify map_find_subscript wordCount_default_def
      split: option.splits)

lemma tally_snoc: "tally (ws @ [t]) = count_word t (tally ws)"
  by (simp add: tally_def)

lemma tally_sorted: "sorted_wrt (<) (map fst (tally ws))"
proof (induction ws rule: rev_induct)
  case Nil
  then show ?case by (simp add: tally_def)
next
  case (snoc t ws)
  then show ?case by (simp add: tally_snoc count_word_sorted)
qed

lemma tally_keys: "fst ` set (tally ws) = set ws"
proof (induction ws rule: rev_induct)
  case Nil
  then show ?case by (simp add: tally_def)
next
  case (snoc t ws)
  then show ?case by (simp add: tally_snoc count_word_keys)
qed

lemma map_find_tally:
  "map_find k (tally ws) =
     (if k \<in> set ws then Some (k, \<lparr>count = int32 (int (count_list ws k))\<rparr>) else None)"
proof (induction ws arbitrary: k rule: rev_induct)
  case Nil
  then show ?case by (simp add: tally_def)
next
  case (snoc t ws)
  have "t \<notin> set ws \<Longrightarrow> count_list ws t = 0"
    by (simp add: count_list_0_iff)
  then show ?case
    by (simp add: tally_snoc map_find_count_word [OF tally_sorted] snoc int32_succ)
qed

lemma map_find_complete:
  "distinct (map fst m) \<Longrightarrow> (k, v) \<in> set m \<Longrightarrow> map_find k m = Some (k, v)"
  by (induction m) (auto simp: rev_image_eqI)

lemma tally_entry:
  assumes "(k, v) \<in> set (tally ws)"
  shows "k \<in> set ws \<and> count v = int32 (int (count_list ws k))"
proof -
  have "distinct (map fst (tally ws))"
    using tally_sorted [of ws] by (simp add: strict_sorted_iff)
  then have "map_find k (tally ws) = Some (k, v)"
    using assms by (rule map_find_complete)
  then show ?thesis
    by (auto simp: map_find_tally split: if_splits)
qed

lemma count_list_bounds: "k \<in> set ws \<Longrightarrow> 1 \<le> count_list ws k \<and> count_list ws k \<le> length ws"
  using count_le_length [of ws k] count_list_0_iff [of ws k] by (simp add: Suc_le_eq)

section \<open>The invariants hold in every reachable state\<close>

lemma c_string_idem: "c_string (c_string buf) = c_string buf"
  by (simp add: c_string_def)

lemma c_string_Nil: "c_string [] = []"
  by (simp add: c_string_def)

lemma c_string_end: "c_string ''end'' = ''end''"
  by (simp add: c_string_def)

lemma strcmp_eq_0_iff: "strcmp a b = 0 \<longleftrightarrow> c_string a = c_string b"
  by (induction a b rule: strcmp.induct) (auto simp: c_string_def)

lemma strcmp_end: "strcmp t ''end'' = 0 \<longleftrightarrow> is_sentinel t"
  by (simp add: strcmp_eq_0_iff is_sentinel_def c_string_end)

lemma is_sentinel_word: "c_string w = w \<Longrightarrow> is_sentinel w \<longleftrightarrow> w = ''end''"
  by (simp add: is_sentinel_def)

lemma words_of_Nil: "words_of [] = []"
  by (simp add: words_of_def)

lemma words_of_snoc:
  "words_of (ts @ [t]) = words_of ts @ (if c_string t = [] then [] else [c_string t])"
  by (simp add: words_of_def)

lemma no_sentinel_snoc:
  "xs \<noteq> [] \<Longrightarrow> \<not> list_ex P (butlast xs) \<Longrightarrow> \<not> P (last xs) \<Longrightarrow> \<not> list_ex P xs"
  by (induction xs) (auto split: if_splits)

lemma notin_butlast_last:
  "xs \<noteq> [] \<Longrightarrow> x \<notin> set (butlast xs) \<Longrightarrow> x \<noteq> last xs \<Longrightarrow> x \<notin> set xs"
  by (induction xs) (auto split: if_splits)

lemma scanf_Stored:
  "scanf inp = (Stored t, rest) \<Longrightarrow> inp = t # rest"
  by (cases inp) (auto split: if_splits)

lemma scanf_EOF:
  "scanf inp = (EOF, rest) \<Longrightarrow> inp = [] \<and> rest = []"
  by (cases inp) (auto split: if_splits)

lemma ingestion_inv_init: "ingestion_inv inp (init inp)"
  by (simp add: ingestion_inv_def main_inv_def worker_inv_def handoff_inv_def init_def
      slot_def in_flight_def words_of_def Word_default_def c_string_def)

lemma main_step_main_inv:
  assumes "main_inv inp s" "read_input_words_step s = Some s'"
  shows "main_inv inp s'"
proof (cases "ppc s")
  case P_Spawn
  with assms show ?thesis
    by (auto simp: main_inv_def read_input_words_step_def)
next
  case P_Scanf
  obtain r rest where sc: "scanf (stdin s) = (r, rest)"
    by (cases "scanf (stdin s)")
  show ?thesis
  proof (cases r)
    case EOF
    with assms P_Scanf sc scanf_EOF [of "stdin s" rest] show ?thesis
      by (auto simp: main_inv_def read_input_words_step_def)
  next
    case (Stored t)
    with assms P_Scanf sc scanf_Stored [of "stdin s" t rest] show ?thesis
      by (auto simp: main_inv_def read_input_words_step_def strcmp_end)
  next
    case (Overrun n)
    with assms P_Scanf sc show ?thesis
      by (auto simp: main_inv_def read_input_words_step_def)
  qed
next
  case P_Put
  with assms show ?thesis
    by (auto simp: main_inv_def read_input_words_step_def)
next
  case P_Wait
  with assms show ?thesis
    by (auto simp: main_inv_def read_input_words_step_def split: if_splits
        dest: no_sentinel_snoc)
next
  case P_Join
  with assms show ?thesis
    by (auto simp: main_inv_def read_input_words_step_def split: if_splits)
qed (use assms in \<open>auto simp: read_input_words_step_def\<close>)

lemma main_step_worker_inv:
  assumes "worker_inv s" "read_input_words_step s = Some s'" "main_inv inp s"
  shows "worker_inv s'"
proof (cases "ppc s")
  case P_Spawn
  with assms show ?thesis
    by (auto simp: worker_inv_def main_inv_def read_input_words_step_def tally_def)
next
  case P_Put
  with assms(2) have "s' = s\<lparr>s_word := Word_of (p_lineBuf s),
      put_log := put_log s @ [p_lineBuf s], ppc := P_Wait\<rparr>"
    by (simp add: read_input_words_step_def)
  with assms(1) show ?thesis
    by (simp add: worker_inv_def Word_of_def c_string_idem cong: worker_pc.case_cong)
next
  case P_Scanf
  with assms(2) have "cpc s' = cpc s \<and> take_log s' = take_log s \<and>
      s_wordsMap s' = s_wordsMap s \<and> c_w s' = c_w s \<and> s_word s' = s_word s"
    by (auto simp: read_input_words_step_def split: prod.splits scanned.splits)
  then have "worker_inv s' = worker_inv s"
    by (simp add: worker_inv_def cong: worker_pc.case_cong)
  with assms(1) show ?thesis
    by simp
next
  case P_Wait
  with assms(2) have "cpc s' = cpc s \<and> take_log s' = take_log s \<and>
      s_wordsMap s' = s_wordsMap s \<and> c_w s' = c_w s \<and> s_word s' = s_word s"
    by (auto simp: read_input_words_step_def split: if_splits)
  then have "worker_inv s' = worker_inv s"
    by (simp add: worker_inv_def cong: worker_pc.case_cong)
  with assms(1) show ?thesis
    by simp
next
  case P_Join
  with assms(2) have "cpc s' = cpc s \<and> take_log s' = take_log s \<and>
      s_wordsMap s' = s_wordsMap s \<and> c_w s' = c_w s \<and> s_word s' = s_word s"
    by (auto simp: read_input_words_step_def split: if_splits)
  then have "worker_inv s' = worker_inv s"
    by (simp add: worker_inv_def cong: worker_pc.case_cong)
  with assms(1) show ?thesis
    by simp
qed (use assms in \<open>auto simp: read_input_words_step_def\<close>)

lemma main_step_handoff_inv:
  assumes "main_inv inp s" "handoff_inv s" "read_input_words_step s = Some s'"
  shows "handoff_inv s'"
proof (cases "ppc s")
  case P_Spawn
  with assms have "s' = s\<lparr>ppc := P_Scanf, cpc := C_Swap\<rparr>" "cpc s = C_Idle"
    by (simp_all add: read_input_words_step_def main_inv_def)
  with assms(2) show ?thesis
    by (auto simp: handoff_inv_def in_flight_def slot_def split: if_splits)
next
  case P_Put
  with assms(1) have e: "data (s_word s) = []"
    by (simp add: main_inv_def)
  from assms(3) P_Put have s': "s' = s\<lparr>s_word := Word_of (p_lineBuf s),
      put_log := put_log s @ [p_lineBuf s], ppc := P_Wait\<rparr>"
    by (simp add: read_input_words_step_def)
  from assms(2) e show ?thesis
    by (auto simp: s' handoff_inv_def in_flight_def slot_def Word_of_def words_of_snoc
        split: if_splits)
next
  case P_Scanf
  with assms(3) have "cpc s' = cpc s \<and> take_log s' = take_log s \<and> put_log s' = put_log s \<and>
      c_w s' = c_w s \<and> s_word s' = s_word s \<and> stdout s' = stdout s \<and>
      s_totalFound s' = s_totalFound s"
    by (auto simp: read_input_words_step_def split: prod.splits scanned.splits)
  with assms(2) show ?thesis
    by (auto simp: handoff_inv_def in_flight_def slot_def split: if_splits)
next
  case P_Wait
  with assms(3) have "cpc s' = cpc s \<and> take_log s' = take_log s \<and> put_log s' = put_log s \<and>
      c_w s' = c_w s \<and> s_word s' = s_word s \<and> stdout s' = stdout s \<and>
      s_totalFound s' = s_totalFound s"
    by (auto simp: read_input_words_step_def split: if_splits)
  with assms(2) show ?thesis
    by (auto simp: handoff_inv_def in_flight_def slot_def split: if_splits)
next
  case P_Join
  with assms(3) have "cpc s' = cpc s \<and> take_log s' = take_log s \<and> put_log s' = put_log s \<and>
      c_w s' = c_w s \<and> s_word s' = s_word s \<and> stdout s' = stdout s \<and>
      s_totalFound s' = s_totalFound s"
    by (auto simp: read_input_words_step_def split: if_splits)
  with assms(2) show ?thesis
    by (auto simp: handoff_inv_def in_flight_def slot_def split: if_splits)
qed (use assms in \<open>auto simp: read_input_words_step_def\<close>)

lemma worker_body_empty: "data w = [] \<Longrightarrow> worker_body w m = (False, m)"
  by (simp add: worker_body_def)

lemma worker_body_end:
  "data w \<noteq> [] \<Longrightarrow> is_sentinel (data w) \<Longrightarrow> worker_body w m = (True, m)"
  by (simp add: worker_body_def strcmp_end)

lemma worker_body_word:
  "data w \<noteq> [] \<Longrightarrow> \<not> is_sentinel (data w) \<Longrightarrow>
   worker_body w m = (False, count_word (data w) m)"
  by (simp add: worker_body_def strcmp_end)

lemma worker_step_worker_inv:
  assumes "worker_inv s" "worker_thread_step s = Some s'"
  shows "worker_inv s'"
proof (cases "cpc s")
  case C_Swap
  with assms(2) have "s' = s\<lparr>c_w := s_word s, s_word := Word_default, cpc := C_Process\<rparr>"
    by (simp add: worker_thread_step_def)
  with assms(1) C_Swap show ?thesis
    by (simp add: worker_inv_def Word_default_def c_string_Nil)
next
  case C_Process
  from assms(1) C_Process have w: "c_string (data (s_word s)) = data (s_word s)"
    "c_string (data (c_w s)) = data (c_w s)"
    "''end'' \<notin> set (take_log s)" "s_wordsMap s = tally (take_log s)"
    by (simp_all add: worker_inv_def)
  show ?thesis
  proof (cases "data (c_w s) = []")
    case True
    with assms(2) C_Process
    have "s' = s\<lparr>s_wordsMap := s_wordsMap s, take_log := take_log s, cpc := C_Swap\<rparr>"
      by (simp add: worker_thread_step_def worker_body_empty)
    with w show ?thesis
      by (simp add: worker_inv_def)
  next
    case False
    show ?thesis
    proof (cases "data (c_w s) = ''end''")
      case True
      then have "is_sentinel (data (c_w s))"
        by (simp add: is_sentinel_def c_string_end)
      with assms(2) C_Process False
      have "s' = s\<lparr>s_wordsMap := s_wordsMap s, take_log := take_log s @ [data (c_w s)],
          cpc := C_Exit\<rparr>"
        by (simp add: worker_thread_step_def worker_body_end)
      with w True show ?thesis
        by (simp add: worker_inv_def)
    next
      case ne: False
      with w(2) have "\<not> is_sentinel (data (c_w s))"
        by (simp add: is_sentinel_word)
      with assms(2) C_Process False
      have "s' = s\<lparr>s_wordsMap := count_word (data (c_w s)) (s_wordsMap s),
          take_log := take_log s @ [data (c_w s)], cpc := C_Swap\<rparr>"
        by (simp add: worker_thread_step_def worker_body_word)
      with w ne show ?thesis
        by (simp add: worker_inv_def tally_snoc)
    qed
  qed
qed (use assms in \<open>auto simp: worker_thread_step_def\<close>)

lemma worker_step_handoff_inv:
  assumes "handoff_inv s" "worker_thread_step s = Some s'"
  shows "handoff_inv s'"
proof (cases "cpc s")
  case C_Swap
  with assms(2) have "s' = s\<lparr>c_w := s_word s, s_word := Word_default, cpc := C_Process\<rparr>"
    by (simp add: worker_thread_step_def)
  with assms(1) C_Swap show ?thesis
    by (auto simp: handoff_inv_def in_flight_def slot_def Word_default_def split: if_splits)
next
  case C_Process
  obtain e m where b: "worker_body (c_w s) (s_wordsMap s) = (e, m)"
    by (cases "worker_body (c_w s) (s_wordsMap s)")
  with assms(2) C_Process
  have "s' = s\<lparr>s_wordsMap := m,
      take_log := take_log s @ (if data (c_w s) \<noteq> [] then [data (c_w s)] else []),
      cpc := (if e then C_Exit else C_Swap)\<rparr>"
    by (simp add: worker_thread_step_def)
  with assms(1) C_Process show ?thesis
    by (auto simp: handoff_inv_def in_flight_def slot_def split: if_splits)
qed (use assms in \<open>auto simp: worker_thread_step_def\<close>)

lemma worker_step_main_inv:
  assumes "main_inv inp s" "worker_thread_step s = Some s'"
  shows "main_inv inp s'"
proof -
  have f: "ppc s' = ppc s \<and> stdin s' = stdin s \<and> put_log s' = put_log s \<and>
      p_lineBuf s' = p_lineBuf s \<and> p_endEncountered s' = p_endEncountered s \<and>
      (data (s_word s) = [] \<longrightarrow> data (s_word s') = []) \<and> cpc s \<noteq> C_Idle \<and> cpc s \<noteq> C_Exit"
    using assms(2)
    by (cases "cpc s")
      (auto simp: worker_thread_step_def Word_default_def split: prod.splits)
  with assms(1) show ?thesis
    by (cases "ppc s") (auto simp: main_inv_def)
qed

lemma step_inv:
  assumes "ingestion_inv inp s" "step t s = Some s'"
  shows "ingestion_inv inp s'"
proof (cases t)
  case Main_thread
  with assms(2) have "read_input_words_step s = Some s'"
    by (simp add: step_def split: if_splits)
  with assms(1) show ?thesis
    unfolding ingestion_inv_def
    using main_step_main_inv main_step_worker_inv main_step_handoff_inv by blast
next
  case Worker
  with assms(2) have "worker_thread_step s = Some s'"
    by (simp add: step_def split: if_splits)
  with assms(1) show ?thesis
    unfolding ingestion_inv_def
    using worker_step_main_inv worker_step_worker_inv worker_step_handoff_inv by blast
qed

lemma run_inv:
  "ingestion_inv inp s \<Longrightarrow> run sched s = Some s' \<Longrightarrow> ingestion_inv inp s'"
proof (induction sched arbitrary: s)
  case Nil
  then show ?case by simp
next
  case (Cons t sched)
  then show ?case
    by (auto split: option.splits dest: step_inv)
qed

lemma reachable_inv:
  "run sched (init inp) = Some s \<Longrightarrow> ingestion_inv inp s"
  using run_inv [OF ingestion_inv_init] by blast

lemma returned_unique:
  assumes "ingestion_inv inp s" "ppc s = P_Return"
  shows "s = returned inp"
proof -
  from assms have m: "put_log s \<noteq> []" "put_log s @ stdin s = inp"
    "\<not> list_ex is_sentinel (butlast (put_log s))" "p_lineBuf s = last (put_log s)"
    "is_sentinel (p_lineBuf s)" "p_endEncountered s" "data (s_word s) = []" "cpc s = C_Exit"
    by (auto simp: ingestion_inv_def main_inv_def)
  from assms m have w: "data (c_w s) = ''end''" "s_wordsMap s = tally (butlast (take_log s))"
    by (simp_all add: ingestion_inv_def worker_inv_def)
  from assms m have h: "take_log s = words_of (put_log s)" "stdout s = []" "s_totalFound s = 0"
    by (simp_all add: ingestion_inv_def handoff_inv_def in_flight_def slot_def)
  obtain ws where p: "put_log s = ws @ [p_lineBuf s]"
    using append_butlast_last_id [OF m(1)] m(4) by metis
  from m(3) p have ws: "\<forall>t \<in> set ws. \<not> is_sentinel t"
    by (simp add: list_ex_iff)
  from m(2) p have inp: "inp = ws @ p_lineBuf s # stdin s"
    by simp
  from ws m(5) have tw: "takeWhile (\<lambda>t. \<not> is_sentinel t) inp = ws"
    unfolding inp by (subst takeWhile_append2) auto
  from ws m(5) have dw: "dropWhile (\<lambda>t. \<not> is_sentinel t) inp = p_lineBuf s # stdin s"
    unfolding inp by (subst dropWhile_append2) auto
  from m(5) have t: "take_log s = words_of ws @ [''end'']"
    by (simp add: h p words_of_snoc is_sentinel_def)
  have "stdin s = tl (dropWhile (\<lambda>t. \<not> is_sentinel t) inp)"
    by (simp add: dw)
  moreover have "p_lineBuf s = hd (dropWhile (\<lambda>t. \<not> is_sentinel t) inp)"
    by (simp add: dw)
  moreover have "s_wordsMap s = tally (words_of (takeWhile (\<lambda>t. \<not> is_sentinel t) inp))"
    by (simp add: tw w t)
  moreover have "put_log s = takeWhile (\<lambda>t. \<not> is_sentinel t) inp @
      [hd (dropWhile (\<lambda>t. \<not> is_sentinel t) inp)]"
    by (simp add: tw dw p)
  moreover have "take_log s = words_of (takeWhile (\<lambda>t. \<not> is_sentinel t) inp) @ [''end'']"
    by (simp add: tw t)
  moreover have "s_word s = Word_default" "c_w s = Word_of ''end''"
    using m(7) w(1) by (simp_all add: Word_default_def Word_of_def c_string_end)
  ultimately show ?thesis
    using assms(2) m(6,8) h(2,3)
    by (simp add: returned_def)
qed

lemma returned_run:
  "run sched (init inp) = Some s \<Longrightarrow> ppc s = P_Return \<Longrightarrow> s = returned inp"
  by (rule returned_unique [OF reachable_inv])

lemmas exec_defs =
  init_def step_def halted_def read_input_words_step_def worker_thread_step_def
  worker_body_def count_word_def Word_of_def Word_default_def wordCount_default_def
  c_string_def lineBuf_size_def int32_def

lemmas main_defs =
  main_def main_after_ingestion_def print_word_list_def print_total_def word_list_def
  lookup_body_def lookup_words.simps

lemmas returned_defs =
  returned_def tally_def words_of_def is_sentinel_def

section \<open>The lookup session and the word list invariant\<close>

declare lookup_words.simps [simp del]

lemma word_list_tally:
  "map fst (word_list m) = map fst m"
  "(k, n) \<in> set (word_list m) \<longleftrightarrow> (\<exists>v. (k, v) \<in> set m \<and> n = count v)"
  by (auto simp: word_list_def)

lemma filter_neq_id: "x \<notin> set xs \<Longrightarrow> filter (\<lambda>w. w \<noteq> x) xs = xs"
  by (induction xs) auto

lemma worker_inv_table:
  assumes "worker_inv s"
  shows "s_wordsMap s = tally (filter (\<lambda>w. w \<noteq> ''end'') (take_log s))"
proof (cases "cpc s")
  case C_Exit
  with assms have e: "take_log s \<noteq> []" "last (take_log s) = ''end''"
    "''end'' \<notin> set (butlast (take_log s))" "s_wordsMap s = tally (butlast (take_log s))"
    by (simp_all add: worker_inv_def)
  obtain xs where xs: "take_log s = xs @ [''end'']"
    using append_butlast_last_id [OF e(1)] e(2) by metis
  with e(3) have "filter (\<lambda>w. w \<noteq> ''end'') xs = xs"
    by (simp add: filter_neq_id)
  with e(4) show ?thesis
    by (simp add: xs)
next
  case C_Idle
  with assms show ?thesis
    by (simp add: worker_inv_def tally_def)
next
  case C_Swap
  with assms have "''end'' \<notin> set (take_log s)" "s_wordsMap s = tally (take_log s)"
    by (simp_all add: worker_inv_def)
  then show ?thesis
    by (simp add: filter_neq_id)
next
  case C_Process
  with assms have "''end'' \<notin> set (take_log s)" "s_wordsMap s = tally (take_log s)"
    by (simp_all add: worker_inv_def)
  then show ?thesis
    by (simp add: filter_neq_id)
qed

lemma lookup_body_frame:
  "stdin (lookup_body q s) = stdin s" "s_wordsMap (lookup_body q s) = s_wordsMap s"
  "ppc (lookup_body q s) = ppc s"
  by (simp_all add: lookup_body_def Let_def split: option.split)

lemma lookup_body_totalFound:
  "s_totalFound (lookup_body q s) =
     (if map_find (c_string q) (s_wordsMap s) = None then s_totalFound s
      else int32 (s_totalFound s + 1))"
  by (simp add: lookup_body_def Word_of_def split: option.split)

lemma lookup_words_Nil:
  "stdin s = [] \<Longrightarrow> lookup_words s = s\<lparr>stdin := [], stdout := stdout s @ [Prompt]\<rparr>"
  by (subst lookup_words.simps) simp

lemma lookup_words_Cons:
  "stdin s = q # qs \<Longrightarrow> length q < 32 \<Longrightarrow>
   lookup_words s = lookup_words (lookup_body q (s\<lparr>stdin := qs, stdout := stdout s @ [Prompt]\<rparr>))"
  by (subst lookup_words.simps) (simp add: lineBuf_size_def)

lemma lookup_words_Overrun:
  "stdin s = q # qs \<Longrightarrow> \<not> length q < 32 \<Longrightarrow>
   lookup_words s = s\<lparr>stdin := qs, stdout := stdout s @ [Prompt], ppc := P_Overrun\<rparr>"
  by (subst lookup_words.simps) (simp add: lineBuf_size_def)

lemma lookup_words_wordsMap: "s_wordsMap (lookup_words s) = s_wordsMap s"
proof (induction "stdin s" arbitrary: s)
  case Nil
  then show ?case
    by (simp add: lookup_words_Nil)
next
  case (Cons q qs)
  show ?case
  proof (cases "length q < 32")
    case True
    have "qs = stdin (lookup_body q (s\<lparr>stdin := qs, stdout := stdout s @ [Prompt]\<rparr>))"
      by (simp add: lookup_body_frame)
    from Cons.hyps(1) [OF this] True show ?thesis
      by (simp add: lookup_words_Cons [of s q qs] Cons.hyps(2) [symmetric] lookup_body_frame)
  next
    case False
    then show ?thesis
      by (simp add: lookup_words_Overrun [of s q qs] Cons.hyps(2) [symmetric])
  qed
qed

lemma lookup_words_totalFound:
  "s_totalFound (lookup_words s) =
     ((\<lambda>c. int32 (c + 1)) ^^
        length (filter (\<lambda>q. map_find (c_string q) (s_wordsMap s) \<noteq> None)
          (takeWhile (\<lambda>q. length q < 32) (stdin s))))
       (s_totalFound s)"
proof (induction "stdin s" arbitrary: s)
  case Nil
  then show ?case
    by (simp add: lookup_words_Nil Nil.hyps [symmetric])
next
  case (Cons q qs)
  let ?s' = "lookup_body q (s\<lparr>stdin := qs, stdout := stdout s @ [Prompt]\<rparr>)"
  show ?case
  proof (cases "length q < 32")
    case False
    then show ?thesis
      by (simp add: lookup_words_Overrun [of s q qs] Cons.hyps(2) [symmetric])
  next
    case True
    have st: "stdin ?s' = qs" and wm: "s_wordsMap ?s' = s_wordsMap s"
      by (simp_all add: lookup_body_frame)
    have tf: "s_totalFound ?s' =
        (if map_find (c_string q) (s_wordsMap s) = None then s_totalFound s
         else int32 (s_totalFound s + 1))"
      by (simp add: lookup_body_totalFound)
    have "s_totalFound (lookup_words ?s') =
       ((\<lambda>c. int32 (c + 1)) ^^
          length (filter (\<lambda>q. map_find (c_string q) (s_wordsMap ?s') \<noteq> None)
            (takeWhile (\<lambda>q. length q < 32) (stdin ?s'))))
         (s_totalFound ?s')"
      by (rule Cons.hyps(1)) (simp add: st)
    moreover have "((\<lambda>c. int32 (c + 1)) ^^ n) (int32 (s_totalFound s + 1)) =
        int32 (((\<lambda>c. int32 (c + 1)) ^^ n) (s_totalFound s) + 1)" for n
      using funpow_swap1 [of "\<lambda>c. int32 (c + 1)" n "s_totalFound s"] by simp
    ultimately show ?thesis
      using True
      by (simp add: lookup_words_Cons [of s q qs] Cons.hyps(2) [symmetric] st wm tf)
  qed
qed

lemma count_word_ok:
  assumes "table_ok m" and "\<forall>(k, v) \<in> set m. count v < 2147483647"
    and "w \<noteq> []" and "w \<noteq> ''end''"
  shows "table_ok (count_word w m)"
  using assms(1,2) unfolding count_word_def
proof (induction m)
  case Nil
  with assms(3,4) show ?case
    by (simp add: table_ok_def wordCount_default_def int32_def)
next
  case (Cons e m)
  obtain k v where e: "e = (k, v)" by (cases e)
  from Cons.prems e have v: "1 \<le> count v" "count v < 2147483647"
    and m: "table_ok m" "\<forall>(k, v) \<in> set m. count v < 2147483647"
    and k: "k \<noteq> []" "k \<noteq> ''end''"
    by (auto simp: table_ok_def)
  from v have "int32 (count v + 1) = count v + 1"
    by (simp add: int32_id)
  with v have inc: "1 \<le> int32 (count v + 1)"
    by simp
  show ?case
  proof (cases "w = k")
    case True
    with m k inc show ?thesis
      by (simp add: e table_ok_def)
  next
    case ne: False
    show ?thesis
    proof (cases "w < k")
      case True
      with ne m k v assms(3,4) show ?thesis
        by (simp add: e table_ok_def wordCount_default_def int32_def)
    next
      case False
      with ne k v Cons.IH [OF m] show ?thesis
        by (simp add: e table_ok_def)
    qed
  qed
qed

lemma worker_step_table_ok:
  assumes "worker_thread_step s = Some s'" and "table_ok (s_wordsMap s)"
    and "\<forall>(k, v) \<in> set (s_wordsMap s). count v < 2147483647"
  shows "table_ok (s_wordsMap s')"
proof (cases "cpc s")
  case C_Process
  show ?thesis
  proof (cases "data (c_w s) = [] \<or> is_sentinel (data (c_w s))")
    case True
    have "snd (worker_body (c_w s) (s_wordsMap s)) = s_wordsMap s"
    proof (cases "data (c_w s) = []")
      case True
      then show ?thesis
        by (simp add: worker_body_empty)
    next
      case False
      with True show ?thesis
        by (simp add: worker_body_end)
    qed
    with assms(1) C_Process have "s_wordsMap s' = s_wordsMap s"
      by (auto simp: worker_thread_step_def split: prod.splits)
    with assms(2) show ?thesis
      by simp
  next
    case False
    with assms(1) C_Process have "s_wordsMap s' = count_word (data (c_w s)) (s_wordsMap s)"
      by (auto simp: worker_thread_step_def worker_body_word)
    moreover from False have "data (c_w s) \<noteq> ''end''"
      by (auto simp: is_sentinel_def c_string_end)
    ultimately show ?thesis
      using assms(2,3) False by (simp add: count_word_ok)
  qed
qed (use assms in \<open>auto simp: worker_thread_step_def\<close>)

lemma words_of_nonempty: "[] \<notin> set (words_of ts)"
  by (simp add: words_of_def)

lemma length_words_of: "length (words_of ts) \<le> length ts"
  using length_filter_le [of "\<lambda>w. w \<noteq> []" "map c_string ts"] by (simp add: words_of_def)

lemma reachable_observed:
  assumes "run sched (init inp) = Some s"
  shows "[] \<notin> set (take_log s) \<and> length (take_log s) \<le> length inp"
proof -
  from assms have inv: "main_inv inp s" "handoff_inv s"
    using reachable_inv [of sched inp s] by (simp_all add: ingestion_inv_def)
  from inv(1) have p: "take (length (put_log s)) inp = put_log s"
    by (cases "ppc s") (auto simp: main_inv_def)
  have "length (put_log s) \<le> length inp"
  proof -
    have "length (take (length (put_log s)) inp) = length (put_log s)"
      by (simp only: p)
    then show ?thesis
      by simp
  qed
  moreover from inv(2) have h: "words_of (put_log s) = take_log s @ in_flight s"
    by (simp add: handoff_inv_def)
  then have "length (take_log s) \<le> length (words_of (put_log s))"
    by simp
  ultimately have "length (take_log s) \<le> length inp"
    using length_words_of [of "put_log s"] by linarith
  moreover have "[] \<notin> set (take_log s)"
    using words_of_nonempty [of "put_log s"] unfolding h by simp
  ultimately show ?thesis
    by simp
qed

lemma reachable_keys_ok:
  assumes "run sched (init inp) = Some s"
  shows "keys_ok (s_wordsMap s)"
proof -
  let ?ws = "filter (\<lambda>w. w \<noteq> ''end'') (take_log s)"
  from assms have "worker_inv s"
    using reachable_inv [of sched inp s] by (simp add: ingestion_inv_def)
  then have m: "s_wordsMap s = tally ?ws"
    by (rule worker_inv_table)
  have "k \<noteq> [] \<and> k \<noteq> ''end''" if "(k, v) \<in> set (tally ?ws)" for k v
  proof -
    from that have "k \<in> set ?ws"
      by (rule tally_entry [THEN conjunct1])
    then have "k \<in> set (take_log s)" "k \<noteq> ''end''"
      by simp_all
    moreover have "[] \<notin> set (take_log s)"
      by (rule reachable_observed [OF assms, THEN conjunct1])
    ultimately show ?thesis
      by metis
  qed
  then show ?thesis
    unfolding keys_ok_def m by blast
qed

lemma reachable_table_ok:
  assumes "length inp < 2147483648" and "run sched (init inp) = Some s"
  shows "table_ok (s_wordsMap s)"
proof -
  let ?ws = "filter (\<lambda>w. w \<noteq> ''end'') (take_log s)"
  from assms(2) have "worker_inv s"
    using reachable_inv [of sched inp s] by (simp add: ingestion_inv_def)
  then have m: "s_wordsMap s = tally ?ws"
    by (rule worker_inv_table)
  have "length ?ws \<le> length (take_log s)"
    by simp
  with reachable_observed [OF assms(2)] assms(1) have b: "length ?ws < 2147483648"
    by linarith
  from reachable_keys_ok [OF assms(2)] have keys: "keys_ok (tally ?ws)"
    by (simp add: m)
  have "1 \<le> count v" if "(k, v) \<in> set (tally ?ws)" for k v
  proof -
    from that have kv: "k \<in> set ?ws" "count v = int32 (int (count_list ?ws k))"
      by (rule tally_entry [THEN conjunct1], rule tally_entry [THEN conjunct2])
    from kv(1) have "1 \<le> count_list ?ws k" "count_list ?ws k \<le> length ?ws"
      using count_list_bounds [of k ?ws] by simp_all
    with b have "1 \<le> int (count_list ?ws k)" "int (count_list ?ws k) < 2147483648"
      by simp_all
    then have "1 \<le> int32 (int (count_list ?ws k))"
      by (simp add: int32_id)
    with kv show ?thesis
      by simp
  qed
  with keys show ?thesis
    unfolding table_ok_def keys_ok_def m by blast
qed

lemma c_string_id: "CHR 0x00 \<notin> set t \<Longrightarrow> c_string t = t"
  unfolding c_string_def by (induction t) auto

lemma words_of_id: "\<forall>t \<in> set ts. CHR 0x00 \<notin> set t \<and> t \<noteq> [] \<Longrightarrow> words_of ts = ts"
  by (induction ts) (simp_all add: words_of_def c_string_id)

lemma count_word_keys_ok:
  "keys_ok m \<Longrightarrow> w \<noteq> [] \<Longrightarrow> w \<noteq> ''end'' \<Longrightarrow> keys_ok (count_word w m)"
proof -
  assume a: "keys_ok m" "w \<noteq> []" "w \<noteq> ''end''"
  have "k \<noteq> [] \<and> k \<noteq> ''end''" if "(k, v) \<in> set (count_word w m)" for k v
  proof -
    from that have "k \<in> fst ` set (count_word w m)"
      by (rule rev_image_eqI) simp
    then have "k = w \<or> k \<in> fst ` set m"
      by (simp add: count_word_keys)
    with a show ?thesis
      by (auto simp: keys_ok_def)
  qed
  then show ?thesis
    unfolding keys_ok_def by blast
qed

lemma worker_step_keys_ok:
  assumes "worker_thread_step s = Some s'" and "keys_ok (s_wordsMap s)"
  shows "keys_ok (s_wordsMap s')"
proof (cases "cpc s")
  case C_Process
  show ?thesis
  proof (cases "data (c_w s) = [] \<or> is_sentinel (data (c_w s))")
    case True
    have "snd (worker_body (c_w s) (s_wordsMap s)) = s_wordsMap s"
    proof (cases "data (c_w s) = []")
      case True
      then show ?thesis
        by (simp add: worker_body_empty)
    next
      case False
      with True show ?thesis
        by (simp add: worker_body_end)
    qed
    with assms(1) C_Process have "s_wordsMap s' = s_wordsMap s"
      by (auto simp: worker_thread_step_def split: prod.splits)
    with assms(2) show ?thesis
      by simp
  next
    case False
    with assms(1) C_Process have "s_wordsMap s' = count_word (data (c_w s)) (s_wordsMap s)"
      by (auto simp: worker_thread_step_def worker_body_word)
    moreover from False have "data (c_w s) \<noteq> ''end''"
      by (auto simp: is_sentinel_def c_string_end)
    ultimately show ?thesis
      using assms(2) False by (simp add: count_word_keys_ok)
  qed
qed (use assms in \<open>auto simp: worker_thread_step_def\<close>)

section \<open>Properties of the program\<close>

text \<open>
  C1. Whatever the schedule, the words the worker has observed, followed by
  the words in flight (the one in its \<open>w\<close> not yet tested, the one in the slot), are
  exactly the words of the tokens the main thread has stored, in the same order: each
  token whose C string is not empty is observed once, as its C string, and the \<open>n\<close>-th
  word observed is the \<open>n\<close>-th such token stored. At most two words are in flight, and
  none when \<open>read_input_words\<close> has returned. The tokens stored are the tokens of the
  input in their order, and the word list is the tally of the words observed, the
  sentinel left out. On an input whose tokens hold no zero byte the words observed and in
  flight are the tokens stored themselves.
\<close>

theorem handoff_in_order:
  assumes "run sched (init inp) = Some s"
  shows "take_log s @ in_flight s = words_of (put_log s) \<and> length (in_flight s) \<le> 2 \<and>
    (\<forall>n < length (take_log s). take_log s ! n = words_of (put_log s) ! n) \<and>
    (ppc s = P_Return \<longrightarrow> take_log s = words_of (put_log s)) \<and>
    take (length (put_log s)) inp = put_log s \<and>
    s_wordsMap s = tally (filter (\<lambda>w. w \<noteq> ''end'') (take_log s)) \<and>
    ((\<forall>t \<in> set inp. CHR 0x00 \<notin> set t \<and> t \<noteq> []) \<longrightarrow>
       take_log s @ in_flight s = put_log s)"
proof -
  from assms have inv: "main_inv inp s" "worker_inv s" "handoff_inv s"
    using reachable_inv [of sched inp s] by (simp_all add: ingestion_inv_def)
  from inv(3) have h: "take_log s @ in_flight s = words_of (put_log s)"
    by (simp add: handoff_inv_def)
  then have nth: "\<forall>n < length (take_log s). take_log s ! n = words_of (put_log s) ! n"
    by (metis nth_append)
  have len: "length (in_flight s) \<le> 2"
    by (simp add: in_flight_def slot_def)
  from inv(1) have "ppc s = P_Return \<longrightarrow> in_flight s = []"
    by (auto simp: main_inv_def in_flight_def slot_def)
  with h have fin: "ppc s = P_Return \<longrightarrow> take_log s = words_of (put_log s)"
    by auto
  from inv(1) have pre: "take (length (put_log s)) inp = put_log s"
    by (cases "ppc s") (auto simp: main_inv_def)
  from inv(2) have tab: "s_wordsMap s = tally (filter (\<lambda>w. w \<noteq> ''end'') (take_log s))"
    by (rule worker_inv_table)
  have "take_log s @ in_flight s = put_log s"
    if z: "\<forall>t \<in> set inp. CHR 0x00 \<notin> set t \<and> t \<noteq> []"
  proof -
    have "set (put_log s) \<subseteq> set inp"
      using pre by (metis set_take_subset)
    with z have "\<forall>t \<in> set (put_log s). CHR 0x00 \<notin> set t \<and> t \<noteq> []"
      by blast
    then have "words_of (put_log s) = put_log s"
      by (rule words_of_id)
    with h show ?thesis
      by simp
  qed
  with h nth len fin pre tab show ?thesis
    by blast
qed

theorem handoff_in_order_witness:
  "\<exists>s. run [Main_thread, Main_thread, Main_thread, Worker, Worker, Main_thread,
             Main_thread, Main_thread, Worker, Worker, Main_thread,
             Main_thread, Main_thread, Worker, Worker, Main_thread, Main_thread]
        (init [''a'', ''b'', ''end'']) = Some s \<and>
     ppc s = P_Return \<and> put_log s = [''a'', ''b'', ''end''] \<and> take_log s = put_log s \<and>
     in_flight s = [] \<and> take_log s ! 1 = ''b'' \<and>
     s_wordsMap s = [(''a'', \<lparr>count = 1\<rparr>), (''b'', \<lparr>count = 1\<rparr>)]"
proof -
  let ?sched = "[Main_thread, Main_thread, Main_thread, Worker, Worker, Main_thread,
             Main_thread, Main_thread, Worker, Worker, Main_thread,
             Main_thread, Main_thread, Worker, Worker, Main_thread, Main_thread]"
  have z: "\<forall>t \<in> set [''a'', ''b'', ''end'']. CHR 0x00 \<notin> set t \<and> t \<noteq> []"
    by simp
  obtain s where r: "run ?sched (init [''a'', ''b'', ''end'']) = Some s"
    and s: "ppc s = P_Return" "put_log s = [''a'', ''b'', ''end'']" "in_flight s = []"
    by (simp add: exec_defs in_flight_def slot_def)
  from handoff_in_order [OF r] z s
  have "take_log s = put_log s"
    "s_wordsMap s = tally (filter (\<lambda>w. w \<noteq> ''end'') (take_log s))"
    by (simp_all add: words_of_def c_string_def)
  with s have "take_log s = put_log s" "take_log s ! 1 = ''b''"
    "s_wordsMap s = [(''a'', \<lparr>count = 1\<rparr>), (''b'', \<lparr>count = 1\<rparr>)]"
    by (simp_all add: tally_def exec_defs)
  with r s show ?thesis
    by blast
qed

text \<open>
  C1. Not every token stored is observed: a token that begins with a zero byte is stored as the empty
  word, which is the free slot, so the main thread goes on without the worker and the
  token is never observed. On the input of two tokens, a zero byte followed by \<open>abc\<close> and then \<open>end\<close>, the main
  thread stores two tokens and the worker observes one.
\<close>

theorem handoff_in_order_counterexample:
  "map_option (\<lambda>s. (ppc s, put_log s, take_log s, s_wordsMap s))
     (run [Main_thread, Main_thread, Main_thread, Main_thread, Main_thread, Main_thread,
           Worker, Worker, Main_thread, Main_thread]
        (init [[CHR 0x00, CHR ''a'', CHR ''b'', CHR ''c''], ''end''])) =
   Some (P_Return, [[CHR 0x00, CHR ''a'', CHR ''b'', CHR ''c''], ''end''], [''end''], [])"
  by (simp add: exec_defs)

text \<open>
  C2. The code does not do this. On an input none of whose tokens is taken for the
  sentinel, and so on the empty input, no schedule brings the worker to its exit, and the
  main thread never reaches \<open>worker.join()\<close> nor returns from \<open>read_input_words\<close> normally:
  at \<open>EOF\<close> it leaves by the \<open>return\<close> of line 82, having stored no sentinel, and the
  destruction of the joinable thread object ends the process.
\<close>

theorem no_sentinel_no_shutdown:
  assumes "''end'' \<notin> c_string ` set inp" and "run sched (init inp) = Some s"
  shows "cpc s \<noteq> C_Exit \<and> ppc s \<noteq> P_Join \<and> ppc s \<noteq> P_Return"
proof -
  from assms(2) have inv: "main_inv inp s" "worker_inv s" "handoff_inv s"
    using reachable_inv [of sched inp s] by (simp_all add: ingestion_inv_def)
  from inv(1) have "take (length (put_log s)) inp = put_log s"
    by (cases "ppc s") (auto simp: main_inv_def)
  then have "set (put_log s) \<subseteq> set inp"
    by (metis set_take_subset)
  with assms(1) have p: "''end'' \<notin> c_string ` set (put_log s)"
    by auto
  from inv(3) have "words_of (put_log s) = take_log s @ in_flight s"
    by (simp add: handoff_inv_def)
  then have "set (take_log s) \<subseteq> set (words_of (put_log s))"
    by simp
  moreover have "set (words_of (put_log s)) \<subseteq> c_string ` set (put_log s)"
    by (auto simp: words_of_def)
  ultimately have t: "''end'' \<notin> set (take_log s)"
    using p by blast
  have "cpc s \<noteq> C_Exit"
  proof
    assume "cpc s = C_Exit"
    with inv(2) have "take_log s \<noteq> []" "last (take_log s) = ''end''"
      by (simp_all add: worker_inv_def)
    with t show False
      using last_in_set [of "take_log s"] by simp
  qed
  moreover have "ppc s \<noteq> P_Join \<and> ppc s \<noteq> P_Return"
  proof (rule ccontr)
    assume "\<not> (ppc s \<noteq> P_Join \<and> ppc s \<noteq> P_Return)"
    with inv(1) have "put_log s \<noteq> []" "is_sentinel (last (put_log s))"
      by (auto simp: main_inv_def)
    then have "last (put_log s) \<in> set (put_log s)" "c_string (last (put_log s)) = ''end''"
      by (simp_all add: is_sentinel_def)
    then have "''end'' \<in> c_string ` set (put_log s)"
      by (metis imageI)
    with p show False
      by simp
  qed
  ultimately show ?thesis
    by simp
qed

theorem no_sentinel_no_shutdown_witness:
  "\<exists>s. run [Main_thread, Main_thread] (init []) = Some s \<and>
     ppc s = P_Terminate \<and> cpc s = C_Swap \<and> put_log s = [] \<and>
     cpc s \<noteq> C_Exit \<and> ppc s \<noteq> P_Join \<and> ppc s \<noteq> P_Return \<and>
     step Worker s = None \<and> step Main_thread s = None"
proof -
  have ne: "''end'' \<notin> c_string ` set ([] :: string list)"
    by simp
  obtain s where r: "run [Main_thread, Main_thread] (init []) = Some s"
    and s: "ppc s = P_Terminate" "cpc s = C_Swap" "put_log s = []"
    by (simp add: exec_defs)
  from s have "step Worker s = None" "step Main_thread s = None"
    by (simp_all add: step_def halted_def)
  with no_sentinel_no_shutdown [OF ne r] r s show ?thesis
    by blast
qed

text \<open>
  C3. Whatever the schedule, when \<open>read_input_words\<close> has returned the listing of the
  word list is in strictly ascending key order, its keys are the words of the tokens read
  before the sentinel, and each is paired with its number of occurrences (as an \<open>int\<close>).
  For the input \<open>b a b end\<close> the word list is \<open>a\<close> with count 1 and \<open>b\<close> with count 2,
  listed as \<open>[(a, 1), (b, 2)]\<close>.
\<close>

theorem word_list_sorted_counts:
  assumes "run sched (init inp) = Some s" and "ppc s = P_Return"
  shows "sorted_wrt (<) (map fst (word_list (s_wordsMap s))) \<and>
    set (map fst (word_list (s_wordsMap s))) =
      set (words_of (takeWhile (\<lambda>t. \<not> is_sentinel t) inp)) \<and>
    (\<forall>(k, n) \<in> set (word_list (s_wordsMap s)).
       n = int32 (int (count_list (words_of (takeWhile (\<lambda>t. \<not> is_sentinel t) inp)) k))) \<and>
    (inp = [''b'', ''a'', ''b'', ''end''] \<longrightarrow>
       s_wordsMap s = [(''a'', \<lparr>count = 1\<rparr>), (''b'', \<lparr>count = 2\<rparr>)] \<and>
       word_list (s_wordsMap s) = [(''a'', 1), (''b'', 2)] \<and>
       stdout (print_word_list s) = [Header, Listing ''a'' 1, Listing ''b'' 2])"
proof -
  let ?ws = "words_of (takeWhile (\<lambda>t. \<not> is_sentinel t) inp)"
  from assms have s: "s = returned inp"
    by (rule returned_run)
  then have m: "s_wordsMap s = tally ?ws" and out: "stdout s = []"
    by (simp_all add: returned_def)
  have "sorted_wrt (<) (map fst (word_list (s_wordsMap s)))"
    by (simp only: word_list_tally m tally_sorted)
  moreover have "set (map fst (word_list (s_wordsMap s))) = set ?ws"
    by (simp only: word_list_tally m set_map tally_keys)
  moreover have "\<forall>(k, n) \<in> set (word_list (s_wordsMap s)). n = int32 (int (count_list ?ws k))"
    unfolding m by (auto simp: word_list_tally dest: tally_entry)
  moreover have "inp = [''b'', ''a'', ''b'', ''end''] \<longrightarrow>
       s_wordsMap s = [(''a'', \<lparr>count = 1\<rparr>), (''b'', \<lparr>count = 2\<rparr>)] \<and>
       word_list (s_wordsMap s) = [(''a'', 1), (''b'', 2)] \<and>
       stdout (print_word_list s) = [Header, Listing ''a'' 1, Listing ''b'' 2]"
    by (simp add: s returned_defs word_list_def print_word_list_def exec_defs)
  ultimately show ?thesis
    by blast
qed

theorem word_list_sorted_counts_witness:
  "\<exists>s. run [Main_thread,
             Main_thread, Main_thread, Worker, Worker, Main_thread,
             Main_thread, Main_thread, Worker, Worker, Main_thread,
             Main_thread, Main_thread, Worker, Worker, Main_thread,
             Main_thread, Main_thread, Worker, Worker, Main_thread,
             Main_thread]
        (init [''b'', ''a'', ''b'', ''end'']) = Some s \<and> ppc s = P_Return \<and>
     s_wordsMap s = [(''a'', \<lparr>count = 1\<rparr>), (''b'', \<lparr>count = 2\<rparr>)] \<and>
     word_list (s_wordsMap s) = [(''a'', 1), (''b'', 2)] \<and>
     stdout (print_word_list s) = [Header, Listing ''a'' 1, Listing ''b'' 2]"
proof -
  let ?sched = "[Main_thread,
             Main_thread, Main_thread, Worker, Worker, Main_thread,
             Main_thread, Main_thread, Worker, Worker, Main_thread,
             Main_thread, Main_thread, Worker, Worker, Main_thread,
             Main_thread, Main_thread, Worker, Worker, Main_thread,
             Main_thread]"
  obtain s where r: "run ?sched (init [''b'', ''a'', ''b'', ''end'']) = Some s"
    and s: "ppc s = P_Return"
    by (simp add: exec_defs)
  from word_list_sorted_counts [OF r s] r s show ?thesis
    by blast
qed

text \<open>
  C4. In every reachable state the sentinel is not a key of the word list; the worker
  that processes the sentinel leaves its loop with the word list unchanged, it has left
  its loop once it has observed the sentinel, and having left it takes no further step.
  After the ingestion of \<open>x x end\<close>, looking up \<open>x\<close> finds it with count 2, and looking
  up \<open>end\<close> or \<open>y\<close> finds nothing.
\<close>

theorem sentinel_never_inserted:
  assumes "run sched (init inp) = Some s"
  shows "map_find ''end'' (s_wordsMap s) = None \<and>
    (''end'' \<in> set (take_log s) \<longrightarrow> cpc s = C_Exit) \<and>
    (cpc s = C_Process \<and> data (c_w s) = ''end'' \<longrightarrow>
       map_option (\<lambda>s'. (cpc s', s_wordsMap s')) (worker_thread_step s) =
         Some (C_Exit, s_wordsMap s)) \<and>
    (cpc s = C_Exit \<longrightarrow> worker_thread_step s = None) \<and>
    (inp = [''x'', ''x'', ''end''] \<and> ppc s = P_Return \<longrightarrow>
       cpc s = C_Exit \<and>
       map_find ''x'' (s_wordsMap s) = Some (''x'', \<lparr>count = 2\<rparr>) \<and>
       map_find ''end'' (s_wordsMap s) = None \<and>
       map_find ''y'' (s_wordsMap s) = None \<and>
       stdout (lookup_body ''x'' s) = [Success ''x'' 2] \<and>
       stdout (lookup_body ''end'' s) = [NotFound ''end''] \<and>
       stdout (lookup_body ''y'' s) = [NotFound ''y''])"
proof -
  from assms have inv: "worker_inv s"
    using reachable_inv [of sched inp s] by (simp add: ingestion_inv_def)
  then have "s_wordsMap s = tally (filter (\<lambda>w. w \<noteq> ''end'') (take_log s))"
    by (rule worker_inv_table)
  then have "map_find ''end'' (s_wordsMap s) = None"
    by (simp add: map_find_tally)
  moreover have "''end'' \<in> set (take_log s) \<longrightarrow> cpc s = C_Exit"
    using inv by (cases "cpc s") (auto simp: worker_inv_def)
  moreover have "cpc s = C_Process \<and> data (c_w s) = ''end'' \<longrightarrow>
       map_option (\<lambda>s'. (cpc s', s_wordsMap s')) (worker_thread_step s) =
         Some (C_Exit, s_wordsMap s)"
    by (simp add: worker_thread_step_def worker_body_end is_sentinel_def c_string_end)
  moreover have "cpc s = C_Exit \<longrightarrow> worker_thread_step s = None"
    by (simp add: worker_thread_step_def)
  moreover have "inp = [''x'', ''x'', ''end''] \<and> ppc s = P_Return \<longrightarrow>
       cpc s = C_Exit \<and>
       map_find ''x'' (s_wordsMap s) = Some (''x'', \<lparr>count = 2\<rparr>) \<and>
       map_find ''end'' (s_wordsMap s) = None \<and>
       map_find ''y'' (s_wordsMap s) = None \<and>
       stdout (lookup_body ''x'' s) = [Success ''x'' 2] \<and>
       stdout (lookup_body ''end'' s) = [NotFound ''end''] \<and>
       stdout (lookup_body ''y'' s) = [NotFound ''y'']"
  proof
    assume a: "inp = [''x'', ''x'', ''end''] \<and> ppc s = P_Return"
    with assms have "s = returned [''x'', ''x'', ''end'']"
      using returned_run [of sched inp s] by simp
    then show "cpc s = C_Exit \<and>
       map_find ''x'' (s_wordsMap s) = Some (''x'', \<lparr>count = 2\<rparr>) \<and>
       map_find ''end'' (s_wordsMap s) = None \<and>
       map_find ''y'' (s_wordsMap s) = None \<and>
       stdout (lookup_body ''x'' s) = [Success ''x'' 2] \<and>
       stdout (lookup_body ''end'' s) = [NotFound ''end''] \<and>
       stdout (lookup_body ''y'' s) = [NotFound ''y'']"
      by (simp add: returned_defs lookup_body_def exec_defs)
  qed
  ultimately show ?thesis
    by blast
qed

theorem sentinel_never_inserted_witness:
  "\<exists>s. run [Main_thread,
             Main_thread, Main_thread, Worker, Worker, Main_thread,
             Main_thread, Main_thread, Worker, Worker, Main_thread,
             Main_thread, Main_thread, Worker, Worker, Main_thread,
             Main_thread]
        (init [''x'', ''x'', ''end'']) = Some s \<and> ppc s = P_Return \<and>
     ''end'' \<in> set (take_log s) \<and> cpc s = C_Exit \<and> worker_thread_step s = None \<and>
     map_find ''x'' (s_wordsMap s) = Some (''x'', \<lparr>count = 2\<rparr>) \<and>
     map_find ''end'' (s_wordsMap s) = None \<and>
     map_find ''y'' (s_wordsMap s) = None \<and>
     stdout (lookup_body ''x'' s) = [Success ''x'' 2] \<and>
     stdout (lookup_body ''end'' s) = [NotFound ''end''] \<and>
     stdout (lookup_body ''y'' s) = [NotFound ''y'']"
proof -
  let ?sched = "[Main_thread,
             Main_thread, Main_thread, Worker, Worker, Main_thread,
             Main_thread, Main_thread, Worker, Worker, Main_thread,
             Main_thread, Main_thread, Worker, Worker, Main_thread,
             Main_thread]"
  obtain s where r: "run ?sched (init [''x'', ''x'', ''end'']) = Some s"
    and s: "ppc s = P_Return" "''end'' \<in> set (take_log s)"
    by (simp add: exec_defs)
  from sentinel_never_inserted [OF r] r s show ?thesis
    by blast
qed

text \<open>
  C5. The code does not do this: \<open>lookup_words\<close> has no test for the sentinel. On the
  input \<open>x x end end x\<close> the program ingests \<open>x x end\<close>; the query \<open>end\<close> is then reported
  as not found and the loop goes on to the query \<open>x\<close>, which is found and counted.
\<close>

theorem lookup_words_ignores_sentinel:
  "map_option (\<lambda>r. (stdout r, s_totalFound r))
     (main [Main_thread,
            Main_thread, Main_thread, Worker, Worker, Main_thread,
            Main_thread, Main_thread, Worker, Worker, Main_thread,
            Main_thread, Main_thread, Worker, Worker, Main_thread,
            Main_thread]
        [''x'', ''x'', ''end'', ''end'', ''x'']) =
   Some ([Header, Listing ''x'' 2,
          Prompt, NotFound ''end'', Prompt, Success ''x'' 2, Prompt, Total 1], 1)"
  by (simp add: main_defs exec_defs)

text \<open>
  C6. The code does not do this: \<open>scanf\<close> is given no field width. For a token of 32
  characters it writes 33 bytes into the 32 bytes of \<open>lineBuf\<close>, in \<open>read_input_words\<close>
  (first run) and in \<open>lookup_words\<close> (second run, the long token after the sentinel)
  alike; the token is neither rejected nor truncated.
\<close>

theorem scanf_overruns_lineBuf:
  "scanf [replicate 32 CHR ''a''] = (Overrun 33, []) \<and> lineBuf_size < 33 \<and>
   map_option ppc (run [Main_thread, Main_thread] (init [replicate 32 CHR ''a''])) =
     Some P_Overrun \<and>
   map_option ppc
     (main [Main_thread, Main_thread, Main_thread, Worker, Worker, Main_thread, Main_thread]
        [''end'', replicate 32 CHR ''a'']) = Some P_Overrun"
  by (simp add: main_defs exec_defs)

text \<open>
  C7. One query adds one to \<open>s_totalFound\<close> (as an \<open>int\<close>) when the word looked up, the
  \<open>data\<close> of \<open>Word(lineBuf)\<close>, is in the word list, and leaves it unchanged otherwise. Over
  a whole lookup session the counter is incremented once for each query whose word is in
  the word list, among the queries read before one overruns the buffer, and changes in no
  other way. On the input \<open>x x end x y x\<close>, whatever the schedule, the word list is \<open>x\<close>
  with count 2 and the queries \<open>x y x\<close> leave the counter at 2, which \<open>main\<close> prints last.
\<close>

theorem totalFound_counts_hits:
  "s_totalFound (lookup_body q s) =
     (if map_find (data (Word_of q)) (s_wordsMap s) = None then s_totalFound s
      else int32 (s_totalFound s + 1)) \<and>
   s_totalFound (lookup_words s) =
     ((\<lambda>c. int32 (c + 1)) ^^
        length (filter (\<lambda>q. map_find (data (Word_of q)) (s_wordsMap s) \<noteq> None)
          (takeWhile (\<lambda>q. length q < 32) (stdin s))))
       (s_totalFound s) \<and>
   (main sched [''x'', ''x'', ''end'', ''x'', ''y'', ''x''] = Some r \<longrightarrow>
    s_wordsMap r = [(''x'', \<lparr>count = 2\<rparr>)] \<and> s_totalFound r = 2 \<and>
    last (stdout r) = Total 2)"
proof -
  let ?inp = "[''x'', ''x'', ''end'', ''x'', ''y'', ''x'']"
  have "s_wordsMap r = [(''x'', \<lparr>count = 2\<rparr>)] \<and> s_totalFound r = 2 \<and>
    last (stdout r) = Total 2" if "main sched ?inp = Some r"
  proof -
    from that obtain s0 where s0: "run sched (init ?inp) = Some s0" "ppc s0 = P_Return"
      and r: "r = main_after_ingestion s0"
      by (auto simp: main_def split: option.splits if_splits)
    from s0 have "s0 = returned ?inp"
      by (rule returned_run)
    then show ?thesis
      by (simp add: r returned_defs main_defs exec_defs)
  qed
  then show ?thesis
    using lookup_body_totalFound [of q s] lookup_words_totalFound [of s]
    by (simp add: Word_of_def)
qed

theorem totalFound_counts_hits_witness:
  "\<exists>r. main [Main_thread,
            Main_thread, Main_thread, Worker, Worker, Main_thread,
            Main_thread, Main_thread, Worker, Worker, Main_thread,
            Main_thread, Main_thread, Worker, Worker, Main_thread,
            Main_thread] [''x'', ''x'', ''end'', ''x'', ''y'', ''x''] = Some r \<and>
     s_wordsMap r = [(''x'', \<lparr>count = 2\<rparr>)] \<and> s_totalFound r = 2 \<and>
     last (stdout r) = Total 2"
proof -
  let ?inp = "[''x'', ''x'', ''end'', ''x'', ''y'', ''x'']"
  let ?sched = "[Main_thread,
            Main_thread, Main_thread, Worker, Worker, Main_thread,
            Main_thread, Main_thread, Worker, Worker, Main_thread,
            Main_thread, Main_thread, Worker, Worker, Main_thread,
            Main_thread]"
  obtain s where s: "run ?sched (init ?inp) = Some s" "ppc s = P_Return"
    by (simp add: exec_defs)
  have "main ?sched ?inp = Some (main_after_ingestion s)"
    unfolding main_def s(1) by (simp add: s(2))
  then obtain r where r: "main ?sched ?inp = Some r"
    by simp
  from totalFound_counts_hits [of "''x''" s ?sched r] r show ?thesis
    by blast
qed

text \<open>
  C8. Neither one query nor a whole lookup session changes the word list, so a lookup
  after a lookup finds what the first one found: the same query asked twice prints the
  same report twice.
\<close>

theorem lookup_never_mutates:
  "s_wordsMap (lookup_body q s) = s_wordsMap s \<and>
   s_wordsMap (lookup_words s) = s_wordsMap s \<and>
   map_find q (s_wordsMap (lookup_body q s)) = map_find q (s_wordsMap s) \<and>
   (\<exists>r. stdout (lookup_body q s) = stdout s @ [r] \<and>
        stdout (lookup_body q (lookup_body q s)) = stdout s @ [r, r])"
proof -
  have "\<exists>r. stdout (lookup_body q s) = stdout s @ [r] \<and>
        stdout (lookup_body q (lookup_body q s)) = stdout s @ [r, r]"
    by (cases "map_find (c_string q) (s_wordsMap s)") (auto simp: lookup_body_def Word_of_def)
  then show ?thesis
    by (simp add: lookup_body_frame lookup_words_wordsMap)
qed

text \<open>
  C9. Every key of the word list is a non-empty word other than the sentinel:
  in every reachable state, and after every step of the worker from a state where it
  held. Every count is at least one as long as no count has reached the largest \<open>int\<close>:
  \<open>table_ok\<close> holds of the empty word list the program starts with, a step of the worker
  preserves it when no count stands at \<open>2147483647\<close>, and it holds in every reachable state
  of a run on fewer than \<open>2^31\<close> tokens.
\<close>

theorem table_invariant:
  "table_ok (s_wordsMap (init inp)) \<and>
   (run sched (init inp) = Some r \<longrightarrow> keys_ok (s_wordsMap r)) \<and>
   (worker_thread_step s = Some s' \<and> keys_ok (s_wordsMap s) \<longrightarrow> keys_ok (s_wordsMap s')) \<and>
   (worker_thread_step s = Some s' \<and> table_ok (s_wordsMap s) \<and>
    (\<forall>(k, v) \<in> set (s_wordsMap s). count v < 2147483647) \<longrightarrow> table_ok (s_wordsMap s')) \<and>
   (length inp < 2147483648 \<and> run sched (init inp) = Some r \<longrightarrow>
    table_ok (s_wordsMap r))"
  using worker_step_table_ok [of s s'] reachable_table_ok [of inp sched r]
    worker_step_keys_ok [of s s'] reachable_keys_ok [of sched inp r]
  by (simp add: table_ok_def init_def)

theorem table_invariant_witness:
  "\<exists>s s' r. worker_thread_step s = Some s' \<and> s_wordsMap s = [(''b'', \<lparr>count = 1\<rparr>)] \<and>
     s_wordsMap s' = [(''a'', \<lparr>count = 1\<rparr>), (''b'', \<lparr>count = 1\<rparr>)] \<and>
     keys_ok (s_wordsMap s') \<and> table_ok (s_wordsMap s') \<and>
     run [Main_thread,
          Main_thread, Main_thread, Worker, Worker, Main_thread,
          Main_thread, Main_thread, Worker, Worker, Main_thread,
          Main_thread, Main_thread, Worker, Worker]
       (init [''b'', ''a'', ''b'', ''end'']) = Some r \<and>
     s_wordsMap r = [(''a'', \<lparr>count = 1\<rparr>), (''b'', \<lparr>count = 2\<rparr>)] \<and>
     keys_ok (s_wordsMap r) \<and> table_ok (s_wordsMap r)"
proof -
  let ?inp = "[''b'', ''a'', ''b'', ''end'']"
  obtain s where s: "run [Main_thread,
          Main_thread, Main_thread, Worker, Worker, Main_thread,
          Main_thread, Main_thread, Worker] (init ?inp) = Some s"
      "s_wordsMap s = [(''b'', \<lparr>count = 1\<rparr>)]"
    by (simp add: exec_defs)
  obtain s' where s': "worker_thread_step s = Some s'"
      "s_wordsMap s' = [(''a'', \<lparr>count = 1\<rparr>), (''b'', \<lparr>count = 1\<rparr>)]"
    using s by (auto simp: exec_defs split: option.splits if_splits)
  obtain r where r: "run [Main_thread,
          Main_thread, Main_thread, Worker, Worker, Main_thread,
          Main_thread, Main_thread, Worker, Worker, Main_thread,
          Main_thread, Main_thread, Worker, Worker] (init ?inp) = Some r"
      "s_wordsMap r = [(''a'', \<lparr>count = 1\<rparr>), (''b'', \<lparr>count = 2\<rparr>)]"
    by (simp add: exec_defs)
  have pre: "table_ok (s_wordsMap s)" "\<forall>(k, v) \<in> set (s_wordsMap s). count v < 2147483647"
    "keys_ok (s_wordsMap s)" "length ?inp < 2147483648"
    by (simp_all add: s(2) table_ok_def keys_ok_def)
  from table_invariant [of ?inp _ r s s'] pre s' r
  have "keys_ok (s_wordsMap s')" "table_ok (s_wordsMap s')"
    "keys_ok (s_wordsMap r)" "table_ok (s_wordsMap r)"
    by blast+
  with s' s r show ?thesis
    by blast
qed

text \<open>
  C9. The bound on the counts is needed: the step of the worker that counts a word whose count stands
  at \<open>2147483647\<close> leaves it at \<open>-2147483648\<close>.
\<close>

theorem table_invariant_counterexample:
  "table_ok [(''x'', \<lparr>count = 2147483647\<rparr>)] \<and>
   map_option s_wordsMap
     (worker_thread_step
        ((init [])\<lparr>cpc := C_Process, c_w := Word_of ''x'',
                   s_wordsMap := [(''x'', \<lparr>count = 2147483647\<rparr>)]\<rparr>)) =
     Some [(''x'', \<lparr>count = - 2147483648\<rparr>)] \<and>
   \<not> table_ok [(''x'', \<lparr>count = - 2147483648\<rparr>)]"
  by (simp add: table_ok_def exec_defs)

text \<open>
  C10. The comparison with the sentinel is an exact, case-sensitive comparison
  of C strings: \<open>strcmp\<close> with \<open>"end"\<close> is zero exactly for the tokens whose bytes before
  the first zero byte are \<open>end\<close>. The main thread sets its \<open>endEncountered\<close> exactly when
  the C string in \<open>lineBuf\<close> is \<open>end\<close> and leaves its loop only after storing such a
  token; the worker leaves its loop only after observing \<open>end\<close>. The words \<open>End\<close>, \<open>END\<close>
  and \<open>ends\<close> are counted like any other word.
\<close>

theorem sentinel_is_exact:
  assumes "run sched (init inp) = Some s"
  shows "(strcmp t ''end'' = 0) = (c_string t = ''end'') \<and>
    (ppc s = P_Join \<or> ppc s = P_Return \<longrightarrow> c_string (last (put_log s)) = ''end'') \<and>
    (ppc s = P_Put \<or> ppc s = P_Wait \<longrightarrow>
       p_endEncountered s = (c_string (p_lineBuf s) = ''end'')) \<and>
    (cpc s = C_Exit \<longrightarrow> last (take_log s) = ''end'') \<and>
    (inp = [''End'', ''END'', ''ends'', ''end''] \<and> ppc s = P_Return \<longrightarrow>
       word_list (s_wordsMap s) = [(''END'', 1), (''End'', 1), (''ends'', 1)])"
proof -
  from assms have inv: "main_inv inp s" "worker_inv s"
    using reachable_inv [of sched inp s] by (simp_all add: ingestion_inv_def)
  have "(strcmp t ''end'' = 0) = (c_string t = ''end'')"
    by (simp add: strcmp_end is_sentinel_def)
  moreover from inv(1)
  have "ppc s = P_Join \<or> ppc s = P_Return \<longrightarrow> c_string (last (put_log s)) = ''end''"
    by (auto simp: main_inv_def is_sentinel_def)
  moreover from inv(1)
  have "ppc s = P_Put \<or> ppc s = P_Wait \<longrightarrow>
      p_endEncountered s = (c_string (p_lineBuf s) = ''end'')"
    by (auto simp: main_inv_def is_sentinel_def)
  moreover from inv(2) have "cpc s = C_Exit \<longrightarrow> last (take_log s) = ''end''"
    by (auto simp: worker_inv_def)
  moreover have "inp = [''End'', ''END'', ''ends'', ''end''] \<and> ppc s = P_Return \<longrightarrow>
       word_list (s_wordsMap s) = [(''END'', 1), (''End'', 1), (''ends'', 1)]"
  proof
    assume "inp = [''End'', ''END'', ''ends'', ''end''] \<and> ppc s = P_Return"
    with assms have "s = returned [''End'', ''END'', ''ends'', ''end'']"
      using returned_run [of sched inp s] by simp
    then show "word_list (s_wordsMap s) = [(''END'', 1), (''End'', 1), (''ends'', 1)]"
      by (simp add: returned_defs word_list_def exec_defs)
  qed
  ultimately show ?thesis
    by blast
qed

theorem sentinel_is_exact_witness:
  "\<exists>s. run [Main_thread,
             Main_thread, Main_thread, Worker, Worker, Main_thread,
             Main_thread, Main_thread, Worker, Worker, Main_thread,
             Main_thread, Main_thread, Worker, Worker, Main_thread,
             Main_thread, Main_thread, Worker, Worker, Main_thread,
             Main_thread]
        (init [''End'', ''END'', ''ends'', ''end'']) = Some s \<and>
     ppc s = P_Return \<and> cpc s = C_Exit \<and>
     c_string (last (put_log s)) = ''end'' \<and> last (take_log s) = ''end'' \<and>
     word_list (s_wordsMap s) = [(''END'', 1), (''End'', 1), (''ends'', 1)] \<and>
     strcmp ''End'' ''end'' \<noteq> 0 \<and> strcmp ''ends'' ''end'' \<noteq> 0 \<and>
     strcmp (''end'' @ [CHR 0x00, CHR ''x'']) ''end'' = 0"
proof -
  let ?sched = "[Main_thread,
             Main_thread, Main_thread, Worker, Worker, Main_thread,
             Main_thread, Main_thread, Worker, Worker, Main_thread,
             Main_thread, Main_thread, Worker, Worker, Main_thread,
             Main_thread, Main_thread, Worker, Worker, Main_thread,
             Main_thread]"
  obtain s where r: "run ?sched (init [''End'', ''END'', ''ends'', ''end'']) = Some s"
    and s: "ppc s = P_Return" "cpc s = C_Exit"
    by (simp add: exec_defs)
  from sentinel_is_exact [OF r, of "''End''"] sentinel_is_exact [OF r, of "''ends''"]
    sentinel_is_exact [OF r, of "''end'' @ [CHR 0x00, CHR ''x'']"] r s
  show ?thesis
    by (simp add: c_string_def)
qed

text \<open>
  C10. A token other than \<open>end\<close> whose C string is \<open>end\<close> is taken
  for the sentinel by both threads. On the input of the tokens \<open>end\<close>-zero byte-\<open>x\<close>, \<open>y\<close> and \<open>end\<close>
  the worker leaves its loop and \<open>read_input_words\<close> returns after the first token, with
  \<open>y end\<close> unread and nothing counted.
\<close>

theorem sentinel_is_exact_counterexample:
  "''end'' @ [CHR 0x00, CHR ''x''] \<noteq> ''end'' \<and>
   map_option (\<lambda>s. (ppc s, cpc s, stdin s, take_log s, s_wordsMap s))
     (run [Main_thread, Main_thread, Main_thread, Worker, Worker, Main_thread, Main_thread]
        (init [''end'' @ [CHR 0x00, CHR ''x''], ''y'', ''end''])) =
   Some (P_Return, C_Exit, [''y'', ''end''], [''end''], [])"
  by (simp add: exec_defs)

end
